theory Spec2Isabelle
  imports Complex_Main
begin

section \<open>Integer polynomials\<close>

text \<open>
  The script \<^verbatim>\<open>hensel_lifting.py\<close> receives \<^verbatim>\<open>f\<close> as a univariate polynomial over the
  integers (the driver builds \<^verbatim>\<open>Poly(x**3 - 3, domain=ZZ)\<close>).  The two operations it uses
  are evaluation, \<^verbatim>\<open>f.subs(x, k)\<close>, and the formal derivative, \<^verbatim>\<open>f.diff(x)\<close>.  A polynomial
  is the list of its coefficients, constant term first.  It is evaluated at an integer
  (the scan of the first line) or at a rational number (a residue of a later round).
\<close>

type_synonym poly = "int list"

fun poly_eval :: "poly \<Rightarrow> 'a::comm_ring_1 \<Rightarrow> 'a" where
  "poly_eval [] x = 0"
| "poly_eval (c # cs) x = of_int c + x * poly_eval cs x"

fun diff_from :: "nat \<Rightarrow> poly \<Rightarrow> poly" where
  "diff_from k [] = []"
| "diff_from k (c # cs) = (int k * c) # diff_from (Suc k) cs"

definition poly_diff :: "poly \<Rightarrow> poly" where
  "poly_diff cs = diff_from 1 (tl cs)"

section \<open>Errors and numbers of the host language\<close>

datatype error =
    ZeroDivisionError
  | ValueError string
  | OverflowError string
  | AssertionError string

text \<open>
  The values of \<^verbatim>\<open>f.subs(x, s)\<close> are numbers of the algebra library, integers or
  rationals, and so are the residues the loop builds from them; both are of type \<open>rat\<close>.
  The right operand of \<^verbatim>\<open>%\<close> and \<^verbatim>\<open>//\<close> is always an integer (\<open>p\<close> or a power of it).
  \<^verbatim>\<open>a % m\<close> is \<open>a - m * floor(a / m)\<close> and \<^verbatim>\<open>a // m\<close> is \<open>floor(a / m)\<close>.
\<close>

definition num_mod :: "rat \<Rightarrow> int \<Rightarrow> rat" where
  "num_mod a m = a - of_int m * of_int \<lfloor>a / of_int m\<rfloor>"

definition num_floordiv :: "rat \<Rightarrow> int \<Rightarrow> int" where
  "num_floordiv a m = \<lfloor>a / of_int m\<rfloor>"

definition is_integer :: "rat \<Rightarrow> bool" where
  "is_integer a \<longleftrightarrow> of_int \<lfloor>a\<rfloor> = a"

text \<open>
  \<^verbatim>\<open>pow(d, -1, m)\<close> for a number \<open>d \<noteq> 0\<close> of the library and a modulus \<open>m \<ge> 2\<close>.  When
  \<open>d\<close> is an integer with an inverse modulo \<open>m\<close>, the result is that inverse in
  \<open>0 .. m - 1\<close>.  Otherwise (an integer without inverse, or a rational that is no integer)
  the library catches the failure of its modular inverse and returns \<^verbatim>\<open>d**-1 % m\<close>, a
  rational; it does not raise.  The loop calls it behind the test \<^verbatim>\<open>df_val != 0\<close> only.
\<close>

definition pow_inv :: "rat \<Rightarrow> int \<Rightarrow> rat" where
  "pow_inv d m =
     (case (if is_integer d then find (\<lambda>v. (\<lfloor>d\<rfloor> * v) mod m = 1 mod m) [0..m - 1]
            else None) of
        Some v \<Rightarrow> of_int v
      | None \<Rightarrow> num_mod (1 / d) m)"

text \<open>
  A number handed to \<^verbatim>\<open>round\<close>: a finite value (an integer, a rational, or the exact
  rational value of a finite double), an infinity or a NaN.  \<^verbatim>\<open>round\<close> of a finite value is
  a nearest integer, ties going to the even one.
\<close>

datatype pynum = Finite rat | PosInf | NegInf | NaN

definition round_half_even :: "rat \<Rightarrow> int" where
  "round_half_even q =
     (let fl = \<lfloor>q\<rfloor>; fr = q - of_int fl in
      if fr < 1 / 2 then fl
      else if 1 / 2 < fr then fl + 1
      else if even fl then fl else fl + 1)"

text \<open>The double written \<^verbatim>\<open>1e-6\<close> is exactly \<open>4722366482869645 / 2 ^ 72\<close>.\<close>

definition float_1e_6 :: rat where
  "float_1e_6 = 4722366482869645 / 2 ^ 72"

text \<open>
  The doubles written \<^verbatim>\<open>3.0000001\<close> and \<^verbatim>\<open>3.00000001\<close>
  (\<^verbatim>\<open>0x1.800000d6bf94dp+1\<close> and \<^verbatim>\<open>0x1.80000015798eep+1\<close>).
\<close>

definition float_3_0000001 :: rat where
  "float_3_0000001 = 6755399666235725 / 2 ^ 51"

definition float_3_00000001 :: rat where
  "float_3_00000001 = 3377699731786871 / 2 ^ 50"

text \<open>Primality of the modulus, the precondition of the routine, by trial division.\<close>

definition is_prime :: "int \<Rightarrow> bool" where
  "is_prime p \<longleftrightarrow> 2 \<le> p \<and> list_all (\<lambda>d. \<not> d dvd p) [2..p - 1]"

section \<open>The lifting routine\<close>

text \<open>
  The first line of \<^verbatim>\<open>hensel_lift\<close>:
  \<^verbatim>\<open>sols = [k for k in range(p) if f.subs(x, k) % p == 0]\<close>.
  The integer list \<open>[0..p - 1]\<close> is empty when \<open>p \<le> 0\<close>, as \<^verbatim>\<open>range(p)\<close> is, so the
  remainder is only taken for a positive \<open>p\<close>.
\<close>

definition base_roots :: "poly \<Rightarrow> int \<Rightarrow> rat list" where
  "base_roots f p = map of_int (filter (\<lambda>k. poly_eval f k mod p = 0) [0..p - 1])"

text \<open>
  The body of the inner loop for one residue \<open>s\<close> at round \<open>i\<close>: the result is the residue
  appended to \<^verbatim>\<open>new_sols\<close>, if any.  Every divisor in the body is a power of \<open>p\<close> with a
  positive exponent or \<open>p\<close> itself, and the first one met is \<open>p\<close>: with \<open>p = 0\<close> the
  body raises \<^verbatim>\<open>ZeroDivisionError\<close> at once.  In
  \<^verbatim>\<open>-f_val // prev_mod * pow(df_val, -1, p)\<close> the unary minus binds first and \<^verbatim>\<open>//\<close>, \<^verbatim>\<open>*\<close>
  associate to the left.
\<close>

definition lift_one :: "poly \<Rightarrow> int \<Rightarrow> nat \<Rightarrow> rat \<Rightarrow> error + rat option" where
  "lift_one f p i s =
     (let modulus = p ^ (i + 1); prev_mod = p ^ i in
      if p = 0 then Inl ZeroDivisionError
      else
        let df_val = num_mod (poly_eval (poly_diff f) s) p;
            f_val = num_mod (poly_eval f s) modulus in
        if df_val \<noteq> 0 then
          let t = num_mod (of_int (num_floordiv (- f_val) prev_mod) * pow_inv df_val p) p in
          Inr (Some (s + t * of_int prev_mod))
        else if num_mod f_val modulus = 0 then Inr (Some s)
        else Inr None)"

text \<open>The inner loop \<^verbatim>\<open>for s in sols\<close>, appending to \<^verbatim>\<open>new_sols\<close>.\<close>

fun lift_sols :: "poly \<Rightarrow> int \<Rightarrow> nat \<Rightarrow> rat list \<Rightarrow> rat list \<Rightarrow> error + rat list" where
  "lift_sols f p i [] new_sols = Inr new_sols"
| "lift_sols f p i (s # sols) new_sols =
     (case lift_one f p i s of
        Inl e \<Rightarrow> Inl e
      | Inr None \<Rightarrow> lift_sols f p i sols new_sols
      | Inr (Some r) \<Rightarrow> lift_sols f p i sols (new_sols @ [r]))"

text \<open>The outer loop \<^verbatim>\<open>for i in range(1, n)\<close>; each round starts from an empty \<^verbatim>\<open>new_sols\<close>.\<close>

fun lift_loop :: "poly \<Rightarrow> int \<Rightarrow> nat list \<Rightarrow> rat list \<Rightarrow> error + rat list" where
  "lift_loop f p [] sols = Inr sols"
| "lift_loop f p (i # is) sols =
     (case lift_sols f p i sols [] of
        Inl e \<Rightarrow> Inl e
      | Inr new_sols \<Rightarrow> lift_loop f p is new_sols)"

text \<open>
  The working list \<^verbatim>\<open>sols\<close> at level \<open>i\<close>, that is after the rounds \<open>1, \<dots>, i - 1\<close>.
\<close>

definition sols_at :: "poly \<Rightarrow> int \<Rightarrow> nat \<Rightarrow> error + rat list" where
  "sols_at f p i = lift_loop f p [1..<i] (base_roots f p)"

text \<open>
  The filter of the last line, \<^verbatim>\<open>abs(s - round(s)) < 1e-6\<close>: the distance of the residue
  to a nearest integer, compared with the double \<^verbatim>\<open>1e-6\<close>.
\<close>

definition near_integer :: "rat \<Rightarrow> bool" where
  "near_integer s \<longleftrightarrow> \<bar>s - of_int (round_half_even s)\<bar> < float_1e_6"

definition hensel_lift :: "poly \<Rightarrow> int \<Rightarrow> int \<Rightarrow> error + rat list" where
  "hensel_lift f p n =
     (case lift_loop f p [1..<nat n] (base_roots f p) of
        Inl e \<Rightarrow> Inl e
      | Inr sols \<Rightarrow> Inr (filter near_integer sols))"

section \<open>The irrationality test and the driver\<close>

text \<open>
  \<^verbatim>\<open>abs(k - round(k)) > tol\<close>.  On a finite double \<open>k\<close> the difference \<^verbatim>\<open>k - round(k)\<close> is
  computed without rounding error, so the rational arithmetic below is what the script
  computes.  \<^verbatim>\<open>round\<close> raises \<^verbatim>\<open>OverflowError\<close> on an infinity and \<^verbatim>\<open>ValueError\<close> on a NaN.
\<close>

definition check_irrational :: "pynum \<Rightarrow> rat \<Rightarrow> error + bool" where
  "check_irrational k tol =
     (case k of
        Finite q \<Rightarrow> Inr (tol < \<bar>q - of_int (round_half_even q)\<bar>)
      | PosInf \<Rightarrow> Inl (OverflowError ''cannot convert float infinity to integer'')
      | NegInf \<Rightarrow> Inl (OverflowError ''cannot convert float infinity to integer'')
      | NaN \<Rightarrow> Inl (ValueError ''cannot convert float NaN to integer''))"

text \<open>
  The specification calls the negation of \<^verbatim>\<open>check_irrational\<close> \<open>isInteger\<close>; the script
  has no function of that name.
\<close>

definition isInteger :: "pynum \<Rightarrow> rat \<Rightarrow> error + bool" where
  "isInteger v tol =
     (case check_irrational v tol of Inl e \<Rightarrow> Inl e | Inr b \<Rightarrow> Inr (\<not> b))"

text \<open>\<^verbatim>\<open>any(check_irrational(sol) for sol in sols)\<close>, with the default tolerance.\<close>

fun any_irrational :: "rat list \<Rightarrow> error + bool" where
  "any_irrational [] = Inr False"
| "any_irrational (sol # sols) =
     (case check_irrational (Finite sol) float_1e_6 of
        Inl e \<Rightarrow> Inl e
      | Inr True \<Rightarrow> Inr True
      | Inr False \<Rightarrow> any_irrational sols)"

text \<open>The driver after the call of \<^verbatim>\<open>hensel_lift\<close>, and the driver itself.\<close>

definition check_sols :: "rat list \<Rightarrow> error + string" where
  "check_sols sols =
     (case any_irrational sols of
        Inl e \<Rightarrow> Inl e
      | Inr True \<Rightarrow> Inl (ValueError ''Non-integer solution detected'')
      | Inr False \<Rightarrow>
          if length sols = 0 then Inr ''3-adic verification passed''
          else Inl (AssertionError ''Counterexample found!''))"

definition main :: "error + string" where
  "main =
     (case hensel_lift [- 3, 0, 0, 1] 3 5 of
        Inl e \<Rightarrow> Inl e
      | Inr sols \<Rightarrow> check_sols sols)"

section \<open>The integer run\<close>

text \<open>
  A device for the proofs: the same loop on integer residues in integer arithmetic.  It
  stops with \<open>NoInverse\<close> where \<^verbatim>\<open>pow\<close> is asked for an inverse that does not exist, the
  one place where the residues of the routine leave the integers.  Wherever the integer
  run returns, the routine returns the same residues (\<open>sols_at_int_refines\<close> below).
\<close>

datatype stop = ZeroModulus | NoInverse

definition pow_inv_int :: "int \<Rightarrow> int \<Rightarrow> stop + int" where
  "pow_inv_int a m =
     (case find (\<lambda>v. (a * v) mod m = 1 mod m) [0..m - 1] of
        None \<Rightarrow> Inl NoInverse
      | Some v \<Rightarrow> Inr v)"

definition base_roots_int :: "poly \<Rightarrow> int \<Rightarrow> int list" where
  "base_roots_int f p = filter (\<lambda>k. poly_eval f k mod p = 0) [0..p - 1]"

definition lift_one_int :: "poly \<Rightarrow> int \<Rightarrow> nat \<Rightarrow> int \<Rightarrow> stop + int option" where
  "lift_one_int f p i s =
     (let modulus = p ^ (i + 1); prev_mod = p ^ i in
      if p = 0 then Inl ZeroModulus
      else
        let df_val = poly_eval (poly_diff f) s mod p;
            f_val = poly_eval f s mod modulus in
        if df_val \<noteq> 0 then
          (case pow_inv_int df_val p of
             Inl e \<Rightarrow> Inl e
           | Inr d_inv \<Rightarrow>
               let t = ((- f_val) div prev_mod * d_inv) mod p in
               Inr (Some (s + t * prev_mod)))
        else if f_val mod modulus = 0 then Inr (Some s)
        else Inr None)"

fun lift_sols_int :: "poly \<Rightarrow> int \<Rightarrow> nat \<Rightarrow> int list \<Rightarrow> int list \<Rightarrow> stop + int list" where
  "lift_sols_int f p i [] new_sols = Inr new_sols"
| "lift_sols_int f p i (s # sols) new_sols =
     (case lift_one_int f p i s of
        Inl e \<Rightarrow> Inl e
      | Inr None \<Rightarrow> lift_sols_int f p i sols new_sols
      | Inr (Some r) \<Rightarrow> lift_sols_int f p i sols (new_sols @ [r]))"

fun lift_loop_int :: "poly \<Rightarrow> int \<Rightarrow> nat list \<Rightarrow> int list \<Rightarrow> stop + int list" where
  "lift_loop_int f p [] sols = Inr sols"
| "lift_loop_int f p (i # is) sols =
     (case lift_sols_int f p i sols [] of
        Inl e \<Rightarrow> Inl e
      | Inr new_sols \<Rightarrow> lift_loop_int f p is new_sols)"

definition sols_at_int :: "poly \<Rightarrow> int \<Rightarrow> nat \<Rightarrow> stop + int list" where
  "sols_at_int f p i = lift_loop_int f p [1..<i] (base_roots_int f p)"

text \<open>
  What one round of the integer run appends for the residue \<open>s\<close>, if anything.  It is used
  to describe a round that returned as a \<open>map_filter\<close>.
\<close>

definition lifted :: "poly \<Rightarrow> int \<Rightarrow> nat \<Rightarrow> int \<Rightarrow> int option" where
  "lifted f p i s = (case lift_one_int f p i s of Inl e \<Rightarrow> None | Inr r \<Rightarrow> r)"

section \<open>Facts about polynomials\<close>

lemma poly_eval_diff_from:
  "poly_eval (diff_from k cs) x
     = int k * poly_eval cs x + x * poly_eval (diff_from (Suc 0) (tl cs)) x"
proof (induction cs arbitrary: k)
  case Nil
  show ?case by simp
next
  case (Cons c cs)
  have a: "poly_eval (diff_from (Suc k) cs) x
      = int (Suc k) * poly_eval cs x + x * poly_eval (diff_from (Suc 0) (tl cs)) x"
    by (rule Cons.IH)
  have b: "poly_eval (diff_from (Suc 0) cs) x
      = poly_eval cs x + x * poly_eval (diff_from (Suc 0) (tl cs)) x"
    using Cons.IH [of "Suc 0"] by simp
  show ?case
    by (simp add: a b algebra_simps)
qed

lemma poly_eval_diff_Cons:
  "poly_eval (poly_diff (c # cs)) (x::int) = poly_eval cs x + x * poly_eval (poly_diff cs) x"
  using poly_eval_diff_from [of 1 cs x] by (simp add: poly_diff_def)

lemma poly_taylor:
  "\<exists>q. poly_eval f (s + h) = poly_eval f (s::int) + h * poly_eval (poly_diff f) s + h * h * q"
proof (induction f)
  case Nil
  show ?case by (simp add: poly_diff_def)
next
  case (Cons c g)
  then obtain q where q: "poly_eval g (s + h) = poly_eval g s + h * poly_eval (poly_diff g) s + h * h * q"
    by blast
  have "poly_eval (c # g) (s + h) = poly_eval (c # g) s + h * poly_eval (poly_diff (c # g)) s
        + h * h * (poly_eval (poly_diff g) s + s * q + h * q)"
    by (simp only: poly_eval.simps q poly_eval_diff_Cons) (simp add: algebra_simps)
  then show ?case by blast
qed



section \<open>The inverse modulo a prime\<close>

lemma is_prime_iff: "is_prime p \<longleftrightarrow> 2 \<le> p \<and> (\<forall>d. 2 \<le> d \<and> d < p \<longrightarrow> \<not> d dvd p)"
  by (auto simp: is_prime_def list_all_iff)

lemma is_prime_coprime:
  assumes "is_prime p" "0 < d" "d < p"
  shows "coprime d p"
proof -
  let ?g = "gcd d p"
  have g1: "?g dvd p" and g2: "?g dvd d" by simp_all
  have "0 < ?g" using assms by (simp add: gcd_pos_int)
  moreover have "?g \<le> d" using g2 assms(2) by (rule_tac zdvd_imp_le) 
  moreover from assms(1) have "\<forall>d. 2 \<le> d \<and> d < p \<longrightarrow> \<not> d dvd p"
    by (simp add: is_prime_iff)
  then have "\<not> (2 \<le> ?g \<and> ?g < p)" using g1 by blast
  ultimately have "?g = 1" using assms(3) by linarith
  then show ?thesis by (simp add: coprime_iff_gcd_eq_1)
qed

lemma pow_inv_int_prime:
  assumes "is_prime p" "0 < d" "d < p"
  shows "\<exists>v. pow_inv_int d p = Inr v \<and> 0 \<le> v \<and> v < p \<and> (d * v) mod p = 1"
proof -
  have p2: "2 \<le> p" using assms by (simp add: is_prime_iff)
  from is_prime_coprime [OF assms] have "gcd d p = 1" by (simp add: coprime_iff_gcd_eq_1)
  then obtain u w where uw: "u * d + w * p = 1"
    using bezout_int [of d p] by auto
  have "(d * (u mod p)) mod p = (u * d + w * p) mod p"
    by (simp add: mod_mult_right_eq mult.commute)
  then have "(d * (u mod p)) mod p = 1 mod p" by (simp add: uw)
  moreover have "u mod p \<in> set [0..p - 1]" using p2 by simp
  ultimately have "find (\<lambda>v. (d * v) mod p = 1 mod p) [0..p - 1] \<noteq> None"
    by (auto simp: find_None_iff)
  then obtain v where v: "find (\<lambda>v. (d * v) mod p = 1 mod p) [0..p - 1] = Some v"
    by blast
  then have "v \<in> set [0..p - 1] \<and> (d * v) mod p = 1 mod p"
    by (auto simp: find_Some_iff)
  then show ?thesis using v p2 by (simp add: pow_inv_int_def)
qed

section \<open>One residue, one round\<close>

lemma is_prime_ge2: "is_prime p \<Longrightarrow> 2 \<le> p"
  by (simp add: is_prime_iff)

lemma lift_one_int_prime_total:
  assumes "is_prime p"
  shows "\<exists>r. lift_one_int f p i s = Inr r"
proof -
  have p2: "2 \<le> p" using assms by (rule is_prime_ge2)
  let ?d = "poly_eval (poly_diff f) s mod p"
  show ?thesis
  proof (cases "?d = 0")
    case True
    then show ?thesis using p2 by (simp add: lift_one_int_def Let_def)
  next
    case False
    have "0 \<le> ?d" "?d < p" using p2 by simp_all
    with False have "0 < ?d" by simp
    from pow_inv_int_prime [OF assms this \<open>?d < p\<close>] obtain v where "pow_inv_int ?d p = Inr v"
      by blast
    then show ?thesis using p2 False by (simp add: lift_one_int_def Let_def)
  qed
qed

lemma lift_one_int_mod_p:
  assumes "lift_one_int f p i s = Inr (Some r)" "1 \<le> i"
  shows "r mod p = s mod p"
proof -
  have "p dvd p ^ i" using assms(2) by (simp add: dvd_power)
  then have "\<And>t. (s + t * p ^ i) mod p = s mod p"
    by (simp add: mod_eq_dvd_iff)
  then show ?thesis using assms(1)
    by (auto simp: lift_one_int_def Let_def split: if_splits sum.splits)
qed


lemma lift_one_int_root:
  assumes pr: "is_prime p" and i: "1 \<le> i"
    and s0: "0 \<le> s" and s1: "s < p ^ i" and fs: "poly_eval f s mod p ^ i = 0"
    and l: "lift_one_int f p i s = Inr (Some r)"
  shows "0 \<le> r \<and> r < p ^ (i + 1) \<and> poly_eval f r mod p ^ (i + 1) = 0"
proof -
  have p2: "2 \<le> p" using pr by (rule is_prime_ge2)
  define P where "P = p ^ i"
  have P0: "0 < P" using p2 by (simp add: P_def)
  have PP: "p ^ (i + 1) = P * p" by (simp add: P_def)
  have pP: "p dvd P" using i by (simp add: P_def dvd_power)
  define d where "d = poly_eval (poly_diff f) s mod p"
  show ?thesis
  proof (cases "d = 0")
    case True
    with l p2 have "poly_eval f s mod p ^ (i + 1) = 0" and "r = s"
      by (auto simp: lift_one_int_def Let_def d_def split: if_splits)
    moreover have "P \<le> P * p" using P0 p2 by simp
    then have "s < p ^ (i + 1)" using s1 unfolding PP by (simp add: P_def)
    ultimately show ?thesis using s0 by simp
  next
    case False
    have "0 \<le> d" "d < p" using p2 by (simp_all add: d_def)
    with False have "0 < d" by simp
    from pow_inv_int_prime [OF pr this \<open>d < p\<close>] obtain v
      where v: "pow_inv_int d p = Inr v" and dv: "(d * v) mod p = 1"
      by blast
    define k where "k = poly_eval f s div P"
    have fk: "poly_eval f s = P * k"
      using fs by (simp add: k_def P_def mod_eq_0_iff_dvd)
    define t where "t = ((- (poly_eval f s mod p ^ (i + 1))) div P * v) mod p"
    have r: "r = s + t * P"
      using l p2 False v
      by (simp add: lift_one_int_def Let_def d_def [symmetric] t_def P_def del: power_Suc)
    have t0: "0 \<le> t" and t1: "t < p" using p2 by (simp_all add: t_def)
    have "poly_eval f s mod (P * p) = P * (k mod p)"
      unfolding fk by (rule mult_mod_right [symmetric])
    moreover have "(P * (- (k mod p))) div P = - (k mod p)"
      using P0 by (intro nonzero_mult_div_cancel_left) simp
    ultimately have "(- (poly_eval f s mod (P * p))) div P = - (k mod p)"
      by simp
    then have t': "t = (- (k mod p) * v) mod p" unfolding t_def PP by simp
    define D where "D = poly_eval (poly_diff f) s"
    define T where "T = - (k mod p) * v"
    have "(D * v) mod p = 1"
      using dv by (simp add: d_def D_def mod_mult_left_eq)
    then have "D * v - 1 = D * v - (D * v) mod p" by simp
    then have e1: "p dvd (D * v - 1)" by (simp only: dvd_minus_mod)
    have e2: "p dvd (k - k mod p)" by (rule dvd_minus_mod)
    have "t = T mod p" by (simp add: t' T_def)
    then have e3: "p dvd (T - t)" by (simp only: dvd_minus_mod)
    have "k + t * D = (k - k mod p) - (T - t) * D - (k mod p) * (D * v - 1)"
      by (simp add: T_def algebra_simps)
    moreover have "p dvd (k - k mod p) - (T - t) * D - (k mod p) * (D * v - 1)"
      by (rule dvd_diff [OF dvd_diff [OF e2 dvd_mult2 [OF e3]] dvd_mult [OF e1]])
    ultimately have "p dvd (k + t * D)" by (simp only:)
    then have key: "p dvd (k + t * poly_eval (poly_diff f) s)"
      unfolding D_def .
    obtain q where q: "poly_eval f (s + t * P)
        = poly_eval f s + t * P * poly_eval (poly_diff f) s + t * P * (t * P) * q"
      using poly_taylor [of f s "t * P"] by blast
    have "poly_eval f r = P * (k + t * poly_eval (poly_diff f) s) + P * P * (t * t * q)"
      unfolding r q fk by (simp add: algebra_simps)
    moreover have "P * p dvd P * (k + t * poly_eval (poly_diff f) s)"
      using key by (simp add: mult_dvd_mono)
    moreover have "P * p dvd P * P * (t * t * q)"
      using pP by (simp add: mult_dvd_mono)
    ultimately have "P * p dvd poly_eval f r" by simp
    then have root: "poly_eval f r mod p ^ (i + 1) = 0"
      unfolding PP by (simp only: mod_eq_0_iff_dvd)
    have "t * P \<le> (p - 1) * P" using t1 P0 by simp
    then have "r < P * p" using s1 by (simp add: r P_def [symmetric] algebra_simps)
    moreover have "0 \<le> r" using s0 t0 P0 by (simp add: r)
    ultimately show ?thesis using root unfolding PP by simp
  qed
qed

section \<open>Rounds and levels\<close>

lemma lift_sols_int_eq:
  "lift_sols_int f p i sols acc = Inr ws \<Longrightarrow> ws = acc @ List.map_filter (lifted f p i) sols"
proof (induction sols arbitrary: acc)
  case Nil
  then show ?case by simp
next
  case (Cons s sols)
  show ?case
  proof (cases "lift_one_int f p i s")
    case (Inl e)
    with Cons.prems show ?thesis by simp
  next
    case (Inr r)
    show ?thesis
    proof (cases r)
      case None
      with Inr Cons.prems have "lift_sols_int f p i sols acc = Inr ws" by simp
      from Cons.IH [OF this] show ?thesis using Inr None by (simp add: lifted_def)
    next
      case (Some x)
      with Inr Cons.prems have "lift_sols_int f p i sols (acc @ [x]) = Inr ws" by simp
      from Cons.IH [OF this] show ?thesis using Inr Some by (simp add: lifted_def)
    qed
  qed
qed

lemma lift_sols_int_total:
  "(\<And>s. s \<in> set sols \<Longrightarrow> \<exists>r. lift_one_int f p i s = Inr r)
     \<Longrightarrow> \<exists>ws. lift_sols_int f p i sols acc = Inr ws"
proof (induction sols arbitrary: acc)
  case Nil
  show ?case by simp
next
  case (Cons s sols)
  from Cons.prems [of s] obtain r where r: "lift_one_int f p i s = Inr r" by auto
  have "\<exists>ws. lift_sols_int f p i sols acc' = Inr ws" for acc'
    by (rule Cons.IH) (simp add: Cons.prems)
  then show ?case by (cases r) (simp_all add: r)
qed

lemma lifted_Some: "lifted f p i s = Some r \<longleftrightarrow> lift_one_int f p i s = Inr (Some r)"
  by (simp add: lifted_def split: sum.splits)


lemma map_filter_distinct:
  assumes "distinct (map m xs)"
    and "\<And>x r. x \<in> set xs \<Longrightarrow> g x = Some r \<Longrightarrow> m r = m x"
  shows "distinct (map m (List.map_filter g xs))"
  using assms
proof (induction xs)
  case Nil
  show ?case by simp
next
  case (Cons x xs)
  have IH: "distinct (map m (List.map_filter g xs))"
    using Cons.prems by (intro Cons.IH) auto
  have sub: "m ` set (List.map_filter g xs) \<subseteq> m ` set xs"
    using Cons.prems(2) by (force simp: List.map_filter_def)
  show ?case
  proof (cases "g x")
    case None
    then show ?thesis using IH by simp
  next
    case (Some r)
    then have "m r = m x" using Cons.prems(2) by simp
    moreover have "m x \<notin> m ` set xs" using Cons.prems(1) by simp
    ultimately show ?thesis using Some IH sub by auto
  qed
qed

lemma lift_loop_int_append:
  "lift_loop_int f p (is @ js) sols
     = (case lift_loop_int f p is sols of Inl e \<Rightarrow> Inl e | Inr ws \<Rightarrow> lift_loop_int f p js ws)"
  by (induction "is" arbitrary: sols) (auto split: sum.splits)

lemma sols_at_int_one: "sols_at_int f p (Suc 0) = Inr (base_roots_int f p)"
  by (simp add: sols_at_int_def)

lemma sols_at_int_Suc:
  assumes "1 \<le> i"
  shows "sols_at_int f p (Suc i)
     = (case sols_at_int f p i of Inl e \<Rightarrow> Inl e | Inr ws \<Rightarrow> lift_sols_int f p i ws [])"
proof -
  have "[1..<Suc i] = [1..<i] @ [i]" using assms by simp
  then show ?thesis
    by (simp add: sols_at_int_def lift_loop_int_append split: sum.splits)
qed

lemma sols_at_int_run:
  assumes "1 \<le> i" "i \<le> n"
  shows "lift_loop_int f p [1..<n] (base_roots_int f p)
     = (case sols_at_int f p i of Inl e \<Rightarrow> Inl e | Inr ws \<Rightarrow> lift_loop_int f p [i..<n] ws)"
proof -
  obtain k where k: "n = i + k" using assms(2) by (auto simp: le_iff_add)
  have "[1..<n] = [1..<i] @ [i..<n]"
    unfolding k using assms(1) by (rule upt_add_eq_append)
  then show ?thesis by (simp add: sols_at_int_def lift_loop_int_append)
qed

lemma base_roots_int_range:
  "r \<in> set (base_roots_int f p) \<longleftrightarrow> 0 \<le> r \<and> r < p \<and> poly_eval f r mod p = 0"
  by (auto simp: base_roots_int_def)

lemma base_roots_int_distinct: "distinct (base_roots_int f p)"
  by (simp add: base_roots_int_def)

section \<open>Invariants of the working list\<close>

lemma lift_one_int_mod_prev:
  assumes "lift_one_int f p i s = Inr (Some r)" "0 \<le> s" "s < p ^ i"
  shows "r mod p ^ i = s"
proof -
  have "(s + t * p ^ i) mod p ^ i = s" for t
    using assms(2,3) by simp
  moreover have "s mod p ^ i = s" using assms(2,3) by simp
  ultimately show ?thesis using assms(1)
    by (auto simp: lift_one_int_def Let_def split: if_splits sum.splits)
qed

lemma prime_round_total:
  assumes "is_prime p"
  shows "\<exists>ws'. lift_sols_int f p i ws [] = Inr ws'"
  by (rule lift_sols_int_total) (rule lift_one_int_prime_total [OF assms])

lemma round_elem:
  assumes "lift_sols_int f p i ws [] = Inr ws'" "r \<in> set ws'"
  shows "\<exists>s\<in>set ws. lift_one_int f p i s = Inr (Some r)"
proof -
  from lift_sols_int_eq [OF assms(1)] have "ws' = List.map_filter (lifted f p i) ws" by simp
  with assms(2) show ?thesis
    by (auto simp: List.map_filter_def lifted_Some [symmetric])
qed

lemma sols_at_int_invariant:
  assumes "is_prime p" "1 \<le> i"
  shows "\<exists>ws. sols_at_int f p i = Inr ws
     \<and> (\<forall>r\<in>set ws. 0 \<le> r \<and> r < p ^ i \<and> poly_eval f r mod p ^ i = 0)"
  using assms(2)
proof (induction i)
  case 0
  then show ?case by simp
next
  case (Suc i)
  show ?case
  proof (cases "i = 0")
    case True
    then show ?thesis by (simp add: sols_at_int_one base_roots_int_range)
  next
    case False
    then have i: "1 \<le> i" by simp
    from Suc.IH [OF i] obtain ws where ws: "sols_at_int f p i = Inr ws"
      and inv: "\<And>r. r \<in> set ws \<Longrightarrow> 0 \<le> r \<and> r < p ^ i \<and> poly_eval f r mod p ^ i = 0"
      by blast
    from prime_round_total [OF assms(1)] obtain ws' where ws': "lift_sols_int f p i ws [] = Inr ws'"
      by blast
    have "0 \<le> r \<and> r < p ^ Suc i \<and> poly_eval f r mod p ^ Suc i = 0" if "r \<in> set ws'" for r
    proof -
      from round_elem [OF ws' that] obtain s where s: "s \<in> set ws"
        and l: "lift_one_int f p i s = Inr (Some r)" by blast
      from inv [OF s] lift_one_int_root [OF assms(1) i _ _ _ l] show ?thesis by simp
    qed
    then show ?thesis by (simp add: sols_at_int_Suc [OF i] ws ws')
  qed
qed

lemma sols_at_int_project:
  assumes "is_prime p" "1 \<le> i" "i \<le> j"
    and "sols_at_int f p i = Inr ws" "sols_at_int f p j = Inr ws'" "r \<in> set ws'"
  shows "r mod p ^ i \<in> set ws"
  using assms(3,5,6)
proof (induction j arbitrary: ws' r rule: dec_induct)
  case base
  with assms(4) have "ws' = ws" by simp
  moreover from sols_at_int_invariant [OF assms(1,2), of f] assms(4)
  have "0 \<le> r \<and> r < p ^ i" if "r \<in> set ws" for r using that by auto
  ultimately show ?case using base by auto
next
  case (step j)
  have j: "1 \<le> j" using assms(2) step.hyps by simp
  from sols_at_int_invariant [OF assms(1) j, of f] obtain vs where vs: "sols_at_int f p j = Inr vs"
    and inv: "\<And>s. s \<in> set vs \<Longrightarrow> 0 \<le> s \<and> s < p ^ j"
    by blast
  from step.prems(1) have ws': "lift_sols_int f p j vs [] = Inr ws'"
    by (simp add: sols_at_int_Suc [OF j] vs)
  from round_elem [OF ws' step.prems(2)] obtain s where s: "s \<in> set vs"
    and l: "lift_one_int f p j s = Inr (Some r)" by blast
  have "r mod p ^ j = s" using lift_one_int_mod_prev [OF l] inv [OF s] by simp
  moreover have "p ^ i dvd p ^ j" using step.hyps by (simp add: le_imp_power_dvd)
  ultimately have "r mod p ^ i = s mod p ^ i" using mod_mod_cancel by metis
  then show ?case using step.IH [OF vs s] by simp
qed


lemma sols_at_int_distinct:
  assumes pr: "is_prime p" and i: "1 \<le> i"
  shows "\<exists>ws. sols_at_int f p i = Inr ws \<and> distinct (map (\<lambda>r. r mod p) ws)"
  using i
proof (induction i)
  case 0
  then show ?case by simp
next
  case (Suc i)
  show ?case
  proof (cases "i = 0")
    case True
    have "map (\<lambda>r. r mod p) (base_roots_int f p) = base_roots_int f p"
      by (rule map_idI) (simp add: base_roots_int_range)
    then show ?thesis using True by (simp add: sols_at_int_one base_roots_int_distinct)
  next
    case False
    then have i: "1 \<le> i" by simp
    from Suc.IH [OF i] obtain ws where ws: "sols_at_int f p i = Inr ws"
      and d: "distinct (map (\<lambda>r. r mod p) ws)"
      by blast
    from prime_round_total [OF pr] obtain ws' where ws': "lift_sols_int f p i ws [] = Inr ws'"
      by blast
    from lift_sols_int_eq [OF ws'] have eq: "ws' = List.map_filter (lifted f p i) ws" by simp
    have "distinct (map (\<lambda>r. r mod p) (List.map_filter (lifted f p i) ws))"
      using d
    proof (rule map_filter_distinct)
      fix x r assume "x \<in> set ws" "lifted f p i x = Some r"
      then have "lift_one_int f p i x = Inr (Some r)" by (simp add: lifted_Some)
      from lift_one_int_mod_p [OF this i] show "r mod p = x mod p" .
    qed
    then show ?thesis by (simp add: sols_at_int_Suc [OF i] ws ws' eq)
  qed
qed

section \<open>Degenerate parameters and the integer filter\<close>

lemma lift_sols_int_identity:
  "(\<And>s. s \<in> set ws \<Longrightarrow> lift_one_int f p i s = Inr (Some s))
     \<Longrightarrow> lift_sols_int f p i ws acc = Inr (acc @ ws)"
  by (induction ws arbitrary: acc) simp_all

lemma lift_loop_int_identity:
  "(\<And>i s. s \<in> set ws \<Longrightarrow> lift_one_int f p i s = Inr (Some s))
     \<Longrightarrow> lift_loop_int f p js ws = Inr ws"
  by (induction js) (simp_all add: lift_sols_int_identity)

lemma lift_one_int_modulus_one: "lift_one_int f 1 i s = Inr (Some s)"
  by (simp add: lift_one_int_def)

lemma base_roots_int_nonpositive: "p \<le> 0 \<Longrightarrow> base_roots_int f p = []"
  by (simp add: base_roots_int_def)

lemma base_roots_int_modulus_one: "base_roots_int f 1 = [0]"
  by (simp add: base_roots_int_def)

lemma poly_eval_zero: "list_all (\<lambda>c. c = 0) f \<Longrightarrow> poly_eval f x = 0"
  by (induction f) simp_all

lemma diff_from_zero: "list_all (\<lambda>c. c = 0) f \<Longrightarrow> list_all (\<lambda>c. c = 0) (diff_from k f)"
  by (induction f arbitrary: k) simp_all

lemma poly_diff_zero: "list_all (\<lambda>c. c = 0) f \<Longrightarrow> list_all (\<lambda>c. c = 0) (poly_diff f)"
  by (cases f) (simp_all add: poly_diff_def diff_from_zero)

lemma lift_one_int_zero_poly:
  "list_all (\<lambda>c. c = 0) f \<Longrightarrow> p \<noteq> 0 \<Longrightarrow> lift_one_int f p i s = Inr (Some s)"
  by (simp add: lift_one_int_def poly_eval_zero poly_diff_zero)

lemma base_roots_int_zero_poly: "list_all (\<lambda>c. c = 0) f \<Longrightarrow> base_roots_int f p = [0..p - 1]"
  by (simp add: base_roots_int_def poly_eval_zero)

lemma lift_loop_int_empty: "lift_loop_int f p js [] = Inr []"
  by (rule lift_loop_int_identity) simp

lemma round_half_even_of_int: "round_half_even (of_int s) = s"
  by (simp add: round_half_even_def)

lemma round_half_even_nearest: "\<bar>q - of_int (round_half_even q)\<bar> \<le> 1 / 2"
proof -
  have "0 \<le> q - of_int \<lfloor>q\<rfloor>" "q - of_int \<lfloor>q\<rfloor> < 1" by linarith+
  then show ?thesis by (auto simp: round_half_even_def Let_def)
qed

section \<open>The routine follows the integer run\<close>

lemma num_mod_of_int: "num_mod (of_int a) m = of_int (a mod m)"
proof -
  have "a mod m = a - m * (a div m)" by (simp add: minus_mult_div_eq_mod [symmetric] algebra_simps)
  then show ?thesis by (simp add: num_mod_def floor_divide_of_int_eq)
qed

lemma num_floordiv_of_int: "num_floordiv (of_int a) m = a div m"
  by (simp add: num_floordiv_def floor_divide_of_int_eq)

lemma poly_eval_of_int: "poly_eval f (of_int x :: rat) = of_int (poly_eval f x)"
  by (induction f) simp_all

lemma is_integer_of_int: "is_integer (of_int a)"
  by (simp add: is_integer_def)

lemma pow_inv_of_int:
  "pow_inv_int d m = Inr v \<Longrightarrow> pow_inv (of_int d) m = of_int v"
  by (simp add: pow_inv_int_def pow_inv_def is_integer_of_int split: option.splits)

lemma lift_one_int_refines:
  assumes "lift_one_int f p i s = Inr r"
  shows "lift_one f p i (of_int s) = Inr (map_option of_int r)"
proof -
  have p: "p \<noteq> 0" using assms by (auto simp: lift_one_int_def Let_def split: if_splits)
  let ?d = "poly_eval (poly_diff f) s mod p"
  show ?thesis
  proof (cases "?d = 0")
    case True
    then show ?thesis using assms p
      by (auto simp: lift_one_int_def lift_one_def Let_def poly_eval_of_int num_mod_of_int
          split: if_splits)
  next
    case False
    with assms p obtain v where v: "pow_inv_int ?d p = Inr v"
      by (auto simp: lift_one_int_def Let_def split: sum.splits)
    define t where "t = ((- (poly_eval f s mod p ^ (i + 1))) div p ^ i * v) mod p"
    have r: "r = Some (s + t * p ^ i)"
      using assms p False v by (auto simp: lift_one_int_def Let_def t_def)
    have fd: "num_floordiv (- of_int (poly_eval f s mod p ^ (i + 1))) (p ^ i)
        = (- (poly_eval f s mod p ^ (i + 1))) div p ^ i"
      using num_floordiv_of_int [of "- (poly_eval f s mod p ^ (i + 1))" "p ^ i"] by simp
    have nz: "(of_int ?d :: rat) \<noteq> 0" using False by simp
    have "num_mod (of_int (num_floordiv (- of_int (poly_eval f s mod p ^ (i + 1))) (p ^ i))
            * pow_inv (of_int ?d) p) p = of_int t"
      unfolding fd pow_inv_of_int [OF v] t_def
      using num_mod_of_int [of "(- (poly_eval f s mod p ^ (i + 1))) div p ^ i * v" p] by simp
    then have "lift_one f p i (of_int s) = Inr (Some (of_int s + of_int t * of_int (p ^ i)))"
      using p nz
      by (simp add: lift_one_def Let_def poly_eval_of_int num_mod_of_int del: power_Suc)
    then show ?thesis by (simp add: r)
  qed
qed

lemma lift_sols_int_refines:
  "lift_sols_int f p i sols acc = Inr ws
     \<Longrightarrow> lift_sols f p i (map of_int sols) (map of_int acc) = Inr (map of_int ws)"
proof (induction sols arbitrary: acc)
  case Nil
  then show ?case by simp
next
  case (Cons s sols)
  from Cons.prems obtain r where r: "lift_one_int f p i s = Inr r"
    by (cases "lift_one_int f p i s") auto
  show ?case
  proof (cases r)
    case None
    with r Cons.prems have "lift_sols_int f p i sols acc = Inr ws" by simp
    from Cons.IH [OF this] show ?thesis
      using lift_one_int_refines [OF r] None by simp
  next
    case (Some x)
    with r Cons.prems have "lift_sols_int f p i sols (acc @ [x]) = Inr ws" by simp
    from Cons.IH [OF this] show ?thesis
      using lift_one_int_refines [OF r] Some by simp
  qed
qed

lemma lift_loop_int_refines:
  "lift_loop_int f p js sols = Inr ws
     \<Longrightarrow> lift_loop f p js (map of_int sols) = Inr (map of_int ws)"
proof (induction js arbitrary: sols)
  case Nil
  then show ?case by simp
next
  case (Cons j js)
  from Cons.prems obtain vs where vs: "lift_sols_int f p j sols [] = Inr vs"
    by (cases "lift_sols_int f p j sols []") auto
  with Cons.prems have "lift_loop_int f p js vs = Inr ws" by simp
  from Cons.IH [OF this] show ?case
    using lift_sols_int_refines [OF vs] by simp
qed

lemma base_roots_of_int: "base_roots f p = map of_int (base_roots_int f p)"
  by (simp add: base_roots_def base_roots_int_def)

lemma sols_at_int_refines:
  "sols_at_int f p i = Inr ws \<Longrightarrow> sols_at f p i = Inr (map of_int ws)"
  by (simp add: sols_at_def sols_at_int_def base_roots_of_int lift_loop_int_refines)

lemma near_integer_of_int: "near_integer (of_int s)"
  by (simp add: near_integer_def round_half_even_of_int float_1e_6_def)

lemma filter_near_integer_of_int: "filter near_integer (map of_int rs) = map of_int rs"
  by (induction rs) (simp_all add: near_integer_of_int)

lemma hensel_lift_refines:
  "sols_at_int f p (nat n) = Inr rs \<Longrightarrow> hensel_lift f p n = Inr (map of_int rs)"
  using sols_at_int_refines [of f p "nat n" rs]
  by (simp add: hensel_lift_def sols_at_def filter_near_integer_of_int)

lemma lift_loop_append:
  "lift_loop f p (is @ js) sols
     = (case lift_loop f p is sols of Inl e \<Rightarrow> Inl e | Inr ws \<Rightarrow> lift_loop f p js ws)"
  by (induction "is" arbitrary: sols) (auto split: sum.splits)

lemma sols_at_run:
  assumes "1 \<le> i" "i \<le> n"
  shows "lift_loop f p [1..<n] (base_roots f p)
     = (case sols_at f p i of Inl e \<Rightarrow> Inl e | Inr ws \<Rightarrow> lift_loop f p [i..<n] ws)"
proof -
  obtain k where k: "n = i + k" using assms(2) by (auto simp: le_iff_add)
  have "[1..<n] = [1..<i] @ [i..<n]"
    unfolding k using assms(1) by (rule upt_add_eq_append)
  then show ?thesis by (simp add: sols_at_def lift_loop_append)
qed

lemma sols_at_int_nonpositive: "p \<le> 0 \<Longrightarrow> sols_at_int f p i = Inr []"
  by (simp add: sols_at_int_def base_roots_int_nonpositive lift_loop_int_empty)

lemma sols_at_int_modulus_one: "sols_at_int f 1 i = Inr [0]"
  by (simp add: sols_at_int_def base_roots_int_modulus_one lift_loop_int_identity
      lift_one_int_modulus_one)

lemma sols_at_int_no_rounds: "i \<le> 1 \<Longrightarrow> sols_at_int f p i = Inr (base_roots_int f p)"
  by (simp add: sols_at_int_def)

lemma sols_at_int_zero_poly:
  assumes "list_all (\<lambda>c. c = 0) f"
  shows "sols_at_int f p i = Inr [0..p - 1]"
proof (cases "p = 0")
  case True
  then show ?thesis by (simp add: sols_at_int_nonpositive)
next
  case False
  then show ?thesis
    by (simp add: sols_at_int_def base_roots_int_zero_poly [OF assms]
        lift_loop_int_identity lift_one_int_zero_poly [OF assms])
qed

lemma near_integer_not_irrational:
  "near_integer r \<Longrightarrow> check_irrational (Finite r) float_1e_6 = Inr False"
  by (simp add: near_integer_def check_irrational_def)

lemma any_irrational_near:
  "list_all near_integer rs \<Longrightarrow> any_irrational rs = Inr False"
  by (induction rs) (simp_all add: near_integer_not_irrational)

lemma hensel_lift_near:
  "hensel_lift f p n = Inr rs \<Longrightarrow> list_all near_integer rs"
  by (auto simp: hensel_lift_def list_all_iff split: sum.splits)

lemma lift_one_singular:
  assumes "p \<noteq> 0" "num_mod (poly_eval (poly_diff f) s) p = 0"
  shows "lift_one f p i s
     = Inr (if num_mod (poly_eval f s) (p ^ (i + 1)) = 0 then Some s else None)"
proof -
  have "num_mod (num_mod a m) m = 0 \<longleftrightarrow> num_mod a m = 0" for a m
  proof (cases "m = 0")
    case True
    then show ?thesis by (simp add: num_mod_def)
  next
    case False
    have "\<lfloor>(a - of_int m * of_int \<lfloor>a / of_int m\<rfloor>) / of_int m\<rfloor> = 0"
      using False by (simp add: diff_divide_distrib)
    then show ?thesis by (simp add: num_mod_def)
  qed
  then show ?thesis using assms by (simp add: lift_one_def Let_def)
qed

lemma map_of_int_eq: "map (of_int :: int \<Rightarrow> rat) xs = map of_int ys \<longleftrightarrow> xs = ys"
  by (simp add: inj_map_eq_map inj_on_def)

lemma sols_at_int_prime_total:
  assumes "is_prime p"
  shows "\<exists>ws. sols_at_int f p i = Inr ws"
proof (cases "1 \<le> i")
  case True
  from sols_at_int_invariant [OF assms this, of f] show ?thesis by blast
next
  case False
  then show ?thesis by (simp add: sols_at_int_no_rounds)
qed

lemma lift_one_returns: "p \<noteq> 0 \<Longrightarrow> \<exists>r. lift_one f p i s = Inr r"
  by (simp add: lift_one_def Let_def)

section \<open>The claims\<close>

text \<open>
  C1.  For a prime \<open>p\<close> and \<open>n \<ge> 1\<close> the routine returns a list of integers, and every \<open>r\<close>
  in it satisfies \<open>f(r) mod p^n = 0\<close> and \<open>0 \<le> r < p^n\<close>.  Moreover at every level \<open>i\<close> with
  \<open>1 \<le> i \<le> n\<close> the working list is a list of integers, the run continues from it with the
  rounds \<open>i, \<dots>, n - 1\<close>, and each of its elements \<open>r\<close> satisfies \<open>f(r) mod p^i = 0\<close> and
  \<open>0 \<le> r < p^i\<close>.  No assumption on the degree of \<open>f\<close> is needed.
\<close>

theorem hensel_lift_roots:
  assumes "is_prime p" and "1 \<le> n"
  shows "(\<exists>rs. hensel_lift f p n = Inr (map of_int rs)
           \<and> (\<forall>r\<in>set rs. poly_eval f r mod p ^ nat n = 0 \<and> 0 \<le> r \<and> r < p ^ nat n))
       \<and> (\<forall>i. 1 \<le> i \<and> i \<le> nat n \<longrightarrow>
            (\<exists>ws. sols_at f p i = Inr (map of_int ws)
               \<and> lift_loop f p [1..<nat n] (base_roots f p)
                   = lift_loop f p [i..<nat n] (map of_int ws)
               \<and> (\<forall>r\<in>set ws. poly_eval f r mod p ^ i = 0 \<and> 0 \<le> r \<and> r < p ^ i)))"
proof (intro conjI allI impI)
  have "1 \<le> nat n" using assms(2) by simp
  from sols_at_int_invariant [OF assms(1) this, of f]
  obtain rs where rs: "sols_at_int f p (nat n) = Inr rs"
    and inv: "\<forall>r\<in>set rs. 0 \<le> r \<and> r < p ^ nat n \<and> poly_eval f r mod p ^ nat n = 0"
    by blast
  from hensel_lift_refines [OF rs] inv
  show "\<exists>rs. hensel_lift f p n = Inr (map of_int rs)
      \<and> (\<forall>r\<in>set rs. poly_eval f r mod p ^ nat n = 0 \<and> 0 \<le> r \<and> r < p ^ nat n)"
    by blast
next
  fix i assume i: "1 \<le> i \<and> i \<le> nat n"
  then have i1: "1 \<le> i" and i2: "i \<le> nat n" by simp_all
  from sols_at_int_invariant [OF assms(1) i1, of f]
  obtain ws where ws: "sols_at_int f p i = Inr ws"
    and inv: "\<forall>r\<in>set ws. 0 \<le> r \<and> r < p ^ i \<and> poly_eval f r mod p ^ i = 0"
    by blast
  note at = sols_at_int_refines [OF ws]
  have "lift_loop f p [1..<nat n] (base_roots f p) = lift_loop f p [i..<nat n] (map of_int ws)"
    using sols_at_run [OF i1 i2, of f p] by (simp add: at)
  with at inv
  show "\<exists>ws. sols_at f p i = Inr (map of_int ws)
      \<and> lift_loop f p [1..<nat n] (base_roots f p) = lift_loop f p [i..<nat n] (map of_int ws)
      \<and> (\<forall>r\<in>set ws. poly_eval f r mod p ^ i = 0 \<and> 0 \<le> r \<and> r < p ^ i)"
    by blast
qed

text \<open>
  The theorem at \<open>f(x) = x^2 - 1\<close>, \<open>p = 3\<close>, \<open>n = 3\<close>: the root 26 of the result and the
  residue 8 of level 2.
\<close>

theorem hensel_lift_roots_witness:
  "is_prime 3 \<and> (1::int) \<le> 3
   \<and> hensel_lift [- 1, 0, 1] 3 3 = Inr (map of_int [1, 26])
   \<and> poly_eval [- 1, 0, 1] (26::int) mod 3 ^ nat 3 = 0 \<and> (0::int) \<le> 26 \<and> (26::int) < 3 ^ nat 3
   \<and> sols_at [- 1, 0, 1] 3 2 = Inr (map of_int [1, 8])
   \<and> poly_eval [- 1, 0, 1] (8::int) mod 3 ^ 2 = 0 \<and> (0::int) \<le> 8 \<and> (8::int) < 3 ^ 2"
proof -
  have h1: "is_prime 3" by code_simp
  have h2: "(1::int) \<le> 3" by simp
  have e1: "hensel_lift [- 1, 0, 1] 3 3 = Inr (map of_int [1, 26])" by code_simp
  have e2: "sols_at [- 1, 0, 1] 3 2 = Inr (map of_int [1, 8])" by code_simp
  note t = hensel_lift_roots [OF h1 h2, of "[- 1, 0, 1]"]
  from t obtain rs where "hensel_lift [- 1, 0, 1] 3 3 = Inr (map of_int rs)"
    and rs: "\<forall>r\<in>set rs. poly_eval [- 1, 0, 1] r mod 3 ^ nat 3 = 0 \<and> 0 \<le> r \<and> r < 3 ^ nat 3"
    by blast
  with e1 have "rs = [1, 26]" by (simp only: sum.inject map_of_int_eq)
  with rs have a: "poly_eval [- 1, 0, 1] (26::int) mod 3 ^ nat 3 = 0 \<and> (0::int) \<le> 26
      \<and> (26::int) < 3 ^ nat 3"
    by simp
  have "1 \<le> (2::nat) \<and> 2 \<le> nat 3" by simp
  from t [THEN conjunct2, THEN spec, THEN mp, OF this]
  obtain ws where "sols_at [- 1, 0, 1] 3 2 = Inr (map of_int ws)"
    and ws: "\<forall>r\<in>set ws. poly_eval [- 1, 0, 1] r mod 3 ^ 2 = 0 \<and> 0 \<le> r \<and> r < 3 ^ 2"
    by blast
  with e2 have "ws = [1, 8]" by (simp only: sum.inject map_of_int_eq)
  with ws have b: "poly_eval [- 1, 0, 1] (8::int) mod 3 ^ 2 = 0 \<and> (0::int) \<le> 8 \<and> (8::int) < 3 ^ 2"
    by simp
  from h1 h2 e1 e2 a b show ?thesis by blast
qed

text \<open>
  C2.  For \<open>f(x) = x^3 - 3\<close>, \<open>p = 3\<close> and \<open>n = 5\<close> the routine returns the empty list: the only
  root modulo 3, the residue 0, is singular and is no root modulo 9.  The driver therefore
  passes its assertion \<^verbatim>\<open>len(sols) == 0\<close> and prints its message.
\<close>

theorem hensel_lift_cube_root_of_three:
  "hensel_lift [- 3, 0, 0, 1] 3 5 = Inr [] \<and> main = Inr ''3-adic verification passed''"
  by code_simp

text \<open>
  C3.  Lifting consistency: for a prime \<open>p\<close> and \<open>1 \<le> m \<le> n\<close>, both calls return a list of
  integers and every root returned at precision \<open>n\<close>, reduced modulo \<open>p^m\<close>, is one of the
  roots returned at precision \<open>m\<close>.
\<close>

theorem hensel_lift_projective:
  assumes "is_prime p" and "1 \<le> m" and "m \<le> n"
  shows "\<exists>rs rs'. hensel_lift f p n = Inr (map of_int rs)
           \<and> hensel_lift f p m = Inr (map of_int rs')
           \<and> (\<forall>r\<in>set rs. r mod p ^ nat m \<in> set rs')"
proof -
  have m: "1 \<le> nat m" and mn: "nat m \<le> nat n" and n: "1 \<le> nat n"
    using assms(2,3) by simp_all
  from sols_at_int_invariant [OF assms(1) n, of f] obtain rs
    where rs: "sols_at_int f p (nat n) = Inr rs" by blast
  from sols_at_int_invariant [OF assms(1) m, of f] obtain rs'
    where rs': "sols_at_int f p (nat m) = Inr rs'" by blast
  have "\<forall>r\<in>set rs. r mod p ^ nat m \<in> set rs'"
    using sols_at_int_project [OF assms(1) m mn rs' rs] by blast
  with hensel_lift_refines [OF rs] hensel_lift_refines [OF rs'] show ?thesis by blast
qed

text \<open>
  The theorem at \<open>f(x) = x^2 - 1\<close>, \<open>p = 3\<close>, \<open>m = 2\<close>, \<open>n = 3\<close>: 26 reduces to 8 modulo 9.
\<close>

theorem hensel_lift_projective_witness:
  "is_prime 3 \<and> (1::int) \<le> 2 \<and> (2::int) \<le> 3
   \<and> hensel_lift [- 1, 0, 1] 3 3 = Inr (map of_int [1, 26])
   \<and> hensel_lift [- 1, 0, 1] 3 2 = Inr (map of_int [1, 8])
   \<and> 26 mod 3 ^ nat 2 \<in> set [1, 8 :: int]"
proof -
  have h1: "is_prime 3" by code_simp
  have h2: "(1::int) \<le> 2" and h3: "(2::int) \<le> 3" by simp_all
  have e1: "hensel_lift [- 1, 0, 1] 3 3 = Inr (map of_int [1, 26])" by code_simp
  have e2: "hensel_lift [- 1, 0, 1] 3 2 = Inr (map of_int [1, 8])" by code_simp
  from hensel_lift_projective [OF h1 h2 h3, of "[- 1, 0, 1]"] obtain rs rs'
    where "hensel_lift [- 1, 0, 1] 3 3 = Inr (map of_int rs)"
      and "hensel_lift [- 1, 0, 1] 3 2 = Inr (map of_int rs')"
      and pr: "\<forall>r\<in>set rs. r mod 3 ^ nat 2 \<in> set rs'"
    by blast
  with e1 e2 have "rs = [1, 26]" and "rs' = [1, 8]"
    by (simp_all only: sum.inject map_of_int_eq)
  with pr have "26 mod 3 ^ nat 2 \<in> set [1, 8 :: int]" by simp
  with h1 h2 h3 e1 e2 show ?thesis by blast
qed

text \<open>
  C4, as stated, fails.  For \<open>f(x) = x^2 - 1\<close>, \<open>p = 3\<close>, \<open>n = 3\<close> the routine returns
  \<open>[1, 26]\<close>, not the four residues 1, 8, 19, 26: for 8 and 19 the value \<open>r^2 - 1\<close> is 9
  modulo 27, so they are no roots.
\<close>

theorem hensel_lift_square_root_of_one_counterexample:
  "hensel_lift [- 1, 0, 1] 3 3 = Inr [1, 26]
   \<and> poly_eval [- 1, 0, 1] (8::int) mod 3 ^ 3 = 9
   \<and> poly_eval [- 1, 0, 1] (19::int) mod 3 ^ 3 = 9"
  by code_simp

text \<open>
  C4, amended.  For \<open>f(x) = x^2 - 1\<close>, \<open>p = 3\<close>, \<open>n = 3\<close> the routine returns \<open>[1, 26]\<close>, and
  these are exactly the residues \<open>r\<close> in \<open>0 \<dots> 26\<close> with \<open>r^2 - 1\<close> divisible by 27.
\<close>

theorem hensel_lift_square_root_of_one:
  "hensel_lift [- 1, 0, 1] 3 3 = Inr [1, 26]
   \<and> filter (\<lambda>r. poly_eval [- 1, 0, 1] r mod 3 ^ 3 = 0) [0..3 ^ 3 - 1] = [1, 26]"
  by code_simp

text \<open>
  C5, as stated, fails: the routine validates nothing and returns a list for \<open>p = 1\<close>, for
  \<open>n = 0\<close> and for the zero polynomial.
\<close>

theorem hensel_lift_unvalidated_counterexample:
  "hensel_lift [- 3, 0, 0, 1] 1 5 = Inr [0]
   \<and> hensel_lift [- 3, 0, 0, 1] 3 0 = Inr [0]
   \<and> hensel_lift [] 3 5 = Inr [0, 1, 2]"
  by code_simp

text \<open>
  C5, amended.  The routine raises no error on malformed parameters.  For \<open>p \<le> 0\<close> it
  returns the empty list; for \<open>p = 1\<close> it returns \<open>[0]\<close>; for \<open>n < 1\<close> no round runs and it
  returns the scan of level 1; for a polynomial with all coefficients zero it returns every
  residue \<open>0, \<dots>, p - 1\<close>.
\<close>

theorem hensel_lift_unvalidated:
  "(p \<le> 0 \<longrightarrow> hensel_lift f p n = Inr [])
   \<and> hensel_lift g 1 m = Inr [0]
   \<and> (k < 1 \<longrightarrow> hensel_lift h q k = Inr (base_roots h q))
   \<and> (list_all (\<lambda>c. c = 0) z \<longrightarrow> hensel_lift z u j = Inr (map of_int [0..u - 1]))"
proof (intro conjI impI)
  show "hensel_lift f p n = Inr []" if "p \<le> 0"
    using hensel_lift_refines [OF sols_at_int_nonpositive [OF that]] by simp
  show "hensel_lift g 1 m = Inr [0]"
    using hensel_lift_refines [OF sols_at_int_modulus_one] by simp
  show "hensel_lift h q k = Inr (base_roots h q)" if "k < 1"
  proof -
    have "nat k \<le> 1" using that by simp
    from hensel_lift_refines [OF sols_at_int_no_rounds [OF this]] show ?thesis
      by (simp add: base_roots_of_int)
  qed
  show "hensel_lift z u j = Inr (map of_int [0..u - 1])" if "list_all (\<lambda>c. c = 0) z"
    by (rule hensel_lift_refines [OF sols_at_int_zero_poly [OF that]])
qed

text \<open>
  The theorem at \<open>p = -2\<close>, at \<open>n = 0\<close> and at the zero polynomial \<open>[0, 0]\<close>.
\<close>

theorem hensel_lift_unvalidated_witness:
  "(- 2::int) \<le> 0 \<and> hensel_lift [- 3, 0, 0, 1] (- 2) 5 = Inr []
   \<and> (0::int) < 1 \<and> hensel_lift [- 3, 0, 0, 1] 3 0 = Inr (base_roots [- 3, 0, 0, 1] 3)
   \<and> list_all (\<lambda>c. c = 0) [0, 0 :: int]
   \<and> hensel_lift [0, 0] 3 5 = Inr (map of_int [0..3 - 1])"
proof -
  have h1: "(- 2::int) \<le> 0" and h2: "(0::int) < 1" and h3: "list_all (\<lambda>c. c = 0) [0, 0 :: int]"
    by simp_all
  note t = hensel_lift_unvalidated
    [of "- 2" "[- 3, 0, 0, 1]" 5 "[]" 0 0 "[- 3, 0, 0, 1]" 3 "[0, 0]" 3 5]
  from t h1 have a: "hensel_lift [- 3, 0, 0, 1] (- 2) 5 = Inr []" by blast
  from t h2 have b: "hensel_lift [- 3, 0, 0, 1] 3 0 = Inr (base_roots [- 3, 0, 0, 1] 3)"
    by blast
  from t h3 have c: "hensel_lift [0, 0] 3 5 = Inr (map of_int [0..3 - 1])" by blast
  from h1 h2 h3 a b c show ?thesis by blast
qed



text \<open>
  C7.  For a prime \<open>p\<close> the routine raises nothing: it returns a list of integers, and
  the loop body returns for every residue and round.  The inverse is requested only for a
  value \<open>f'(s) mod p\<close> that is not zero, and for an integer residue \<open>s\<close> it then exists:
  \<^verbatim>\<open>pow\<close> returns an integer \<open>v\<close> with \<open>(f'(s) mod p) * v mod p = 1\<close>.  When \<open>f'(s) mod p\<close> is
  zero the body answers from \<open>f(s)\<close> alone and asks for no inverse.
\<close>

theorem hensel_lift_inverse_guarded:
  assumes "is_prime p"
  shows "(\<exists>rs. hensel_lift f p n = Inr (map of_int rs))
       \<and> (\<forall>i s. \<exists>r. lift_one f p i s = Inr r)
       \<and> (\<forall>s::int. poly_eval (poly_diff f) s mod p \<noteq> 0 \<longrightarrow>
            (\<exists>v. pow_inv (of_int (poly_eval (poly_diff f) s mod p)) p = of_int v
               \<and> (poly_eval (poly_diff f) s mod p * v) mod p = 1))
       \<and> (\<forall>i s. num_mod (poly_eval (poly_diff f) s) p = 0 \<longrightarrow>
            lift_one f p i s
              = Inr (if num_mod (poly_eval f s) (p ^ (i + 1)) = 0 then Some s else None))"
proof (intro conjI allI impI)
  have p2: "2 \<le> p" using assms by (rule is_prime_ge2)
  from sols_at_int_prime_total [OF assms, of f "nat n"] obtain rs
    where "sols_at_int f p (nat n) = Inr rs" by blast
  from hensel_lift_refines [OF this]
  show "\<exists>rs. hensel_lift f p n = Inr (map of_int rs)" by blast
  show "\<exists>r. lift_one f p i s = Inr r" for i s
    using p2 by (intro lift_one_returns) simp
  show "\<exists>v. pow_inv (of_int (poly_eval (poly_diff f) s mod p)) p = of_int v
      \<and> (poly_eval (poly_diff f) s mod p * v) mod p = 1"
    if "poly_eval (poly_diff f) s mod p \<noteq> 0" for s :: int
  proof -
    let ?d = "poly_eval (poly_diff f) s mod p"
    have "0 \<le> ?d" "?d < p" using p2 by simp_all
    with that have "0 < ?d" by simp
    from pow_inv_int_prime [OF assms this \<open>?d < p\<close>] obtain v
      where v: "pow_inv_int ?d p = Inr v" and dv: "(?d * v) mod p = 1" by blast
    from pow_inv_of_int [OF v] dv show ?thesis by blast
  qed
  show "lift_one f p i s = Inr (if num_mod (poly_eval f s) (p ^ (i + 1)) = 0 then Some s else None)"
    if "num_mod (poly_eval (poly_diff f) s) p = 0" for i s
    using p2 that by (intro lift_one_singular) simp_all
qed

text \<open>
  The theorem at \<open>p = 3\<close>: the singular residue 0 of \<open>x^3 - 3\<close> is dropped without an
  error.
\<close>

theorem hensel_lift_inverse_guarded_witness:
  "is_prime 3 \<and> hensel_lift [- 1, 0, 1] 3 3 = Inr (map of_int [1, 26])
   \<and> poly_eval (poly_diff [- 1, 0, 1]) (1::int) mod 3 \<noteq> 0
   \<and> pow_inv (of_int (poly_eval (poly_diff [- 1, 0, 1]) 1 mod 3)) 3 = 2
   \<and> num_mod (poly_eval (poly_diff [- 3, 0, 0, 1]) 0) 3 = 0
   \<and> lift_one [- 3, 0, 0, 1] 3 1 0 = Inr None"
proof -
  have h: "is_prime 3" by code_simp
  have e1: "hensel_lift [- 1, 0, 1] 3 3 = Inr (map of_int [1, 26])" by code_simp
  have e2: "poly_eval (poly_diff [- 1, 0, 1]) (1::int) mod 3 \<noteq> 0" by code_simp
  have e3: "pow_inv (of_int (poly_eval (poly_diff [- 1, 0, 1]) 1 mod 3)) 3 = 2" by code_simp
  have e4: "num_mod (poly_eval (poly_diff [- 3, 0, 0, 1]) 0) 3 = 0" by code_simp
  have e5: "num_mod (poly_eval [- 3, 0, 0, 1] 0) (3 ^ (1 + 1)) \<noteq> 0" by code_simp
  note t = hensel_lift_inverse_guarded [OF h, of "[- 3, 0, 0, 1]"]
  from t [THEN conjunct2, THEN conjunct2, THEN conjunct2, THEN spec, THEN spec, THEN mp, OF e4]
  have "lift_one [- 3, 0, 0, 1] 3 1 0 = Inr None" using e5 by simp
  with h e1 e2 e3 e4 show ?thesis by blast
qed

text \<open>
  C8, as stated, fails.  \<open>isInteger(3.0000001, 1e-6)\<close> is true, not false: the value is
  about \<open>10^-7\<close> away from 3, within the tolerance.  Nor is the function total on
  all numbers: on a NaN \<^verbatim>\<open>round\<close> raises.
\<close>

theorem isInteger_counterexample:
  "isInteger (Finite float_3_0000001) float_1e_6 = Inr True
   \<and> isInteger NaN float_1e_6 = Inl (ValueError ''cannot convert float NaN to integer'')"
  by code_simp

text \<open>
  C8, amended.  On every finite value \<open>isInteger\<close> returns a boolean: whether the
  distance to the nearest integer is at most the tolerance (\<open>check_irrational\<close> returns
  the opposite), that distance being at most one half.  \<open>isInteger(3.0000001, 1e-6)\<close> and
  \<open>isInteger(3.00000001, 1e-6)\<close> are both true.  On a NaN and on the infinities the
  function raises.
\<close>

theorem isInteger_finite:
  "isInteger (Finite q) tol = Inr (\<bar>q - of_int (round_half_even q)\<bar> \<le> tol)
   \<and> check_irrational (Finite q) tol = Inr (tol < \<bar>q - of_int (round_half_even q)\<bar>)
   \<and> \<bar>q - of_int (round_half_even q)\<bar> \<le> 1 / 2
   \<and> isInteger (Finite float_3_0000001) float_1e_6 = Inr True
   \<and> isInteger (Finite float_3_00000001) float_1e_6 = Inr True
   \<and> isInteger NaN tol = Inl (ValueError ''cannot convert float NaN to integer'')
   \<and> isInteger PosInf tol = Inl (OverflowError ''cannot convert float infinity to integer'')
   \<and> isInteger NegInf tol = Inl (OverflowError ''cannot convert float infinity to integer'')"
proof (intro conjI)
  show "isInteger (Finite float_3_0000001) float_1e_6 = Inr True" by code_simp
  show "isInteger (Finite float_3_00000001) float_1e_6 = Inr True" by code_simp
  show "\<bar>q - of_int (round_half_even q)\<bar> \<le> 1 / 2" by (rule round_half_even_nearest)
qed (simp_all add: isInteger_def check_irrational_def not_less)

text \<open>
  C9.  For a prime \<open>p\<close> and \<open>n \<ge> 1\<close> the returned list has no duplicates, and neither has
  the working list at any level.
\<close>

theorem hensel_lift_distinct:
  assumes "is_prime p" and "1 \<le> n"
  shows "(\<exists>rs. hensel_lift f p n = Inr rs \<and> distinct rs)
       \<and> (\<forall>i. 1 \<le> i \<longrightarrow> (\<exists>ws. sols_at f p i = Inr ws \<and> distinct ws))"
proof -
  have lev: "\<exists>ws. sols_at_int f p i = Inr ws \<and> distinct (map (of_int :: int \<Rightarrow> rat) ws)"
    if "1 \<le> i" for i
    using sols_at_int_distinct [OF assms(1) that, of f]
    by (auto simp: distinct_map inj_on_def)
  have "\<exists>ws. sols_at f p i = Inr ws \<and> distinct ws" if "1 \<le> i" for i
    using lev [OF that] sols_at_int_refines [of f p i] by blast
  moreover have "1 \<le> nat n" using assms(2) by simp
  from lev [OF this] have "\<exists>rs. hensel_lift f p n = Inr rs \<and> distinct rs"
    using hensel_lift_refines [of f p n] by blast
  ultimately show ?thesis by blast
qed

text \<open>
  The theorem at \<open>f(x) = x^2 - 1\<close>, \<open>p = 5\<close>, \<open>n = 4\<close>.
\<close>

theorem hensel_lift_distinct_witness:
  "is_prime 5 \<and> (1::int) \<le> 4 \<and> hensel_lift [- 1, 0, 1] 5 4 = Inr [1, 624]
   \<and> distinct [1, 624 :: rat]"
proof -
  have h1: "is_prime 5" by code_simp
  have h2: "(1::int) \<le> 4" by simp
  have e: "hensel_lift [- 1, 0, 1] 5 4 = Inr [1, 624]" by code_simp
  from hensel_lift_distinct [OF h1 h2, of "[- 1, 0, 1]"] e
  have "distinct [1, 624 :: rat]" by auto
  with h1 h2 e show ?thesis by blast
qed

text \<open>
  C10, as stated, fails.  For \<open>f(x) = x^2 - 1\<close>, \<open>p = 8\<close>, \<open>n = 2\<close> the loop leaves the
  residues 1, 197/3, 57, 63: 6 has no inverse modulo 8, \<^verbatim>\<open>pow\<close> returns the rational 1/6, and
  the residue built from it is no integer.  The last filter removes it.
\<close>

theorem hensel_lift_filter_counterexample:
  "lift_loop [- 1, 0, 1] 8 [1..<nat 2] (base_roots [- 1, 0, 1] 8) = Inr [1, 197 / 3, 57, 63]
   \<and> hensel_lift [- 1, 0, 1] 8 2 = Inr [1, 57, 63]"
  by code_simp

text \<open>
  C10, amended.  For a prime \<open>p\<close> every residue the loop leaves is an integer and the last
  filter keeps all of them: the routine returns what the loop leaves.  For every input,
  \<^verbatim>\<open>check_irrational\<close> is false on every element the routine returns, so \<^verbatim>\<open>any(...)\<close> is false
  on the returned list and the checks of the driver do not raise "Non-integer solution
  detected"; the driver itself prints its message.
\<close>

theorem hensel_lift_filter_on_prime:
  assumes "is_prime p"
  shows "(\<exists>rs. lift_loop f p [1..<nat n] (base_roots f p) = Inr (map of_int rs)
            \<and> hensel_lift f p n = Inr (map of_int rs))
       \<and> (\<forall>rs. hensel_lift g q m = Inr rs \<longrightarrow>
            (\<forall>r\<in>set rs. check_irrational (Finite r) float_1e_6 = Inr False)
            \<and> any_irrational rs = Inr False
            \<and> check_sols rs \<noteq> Inl (ValueError ''Non-integer solution detected''))
       \<and> main = Inr ''3-adic verification passed''"
proof (intro conjI allI impI)
  from sols_at_int_prime_total [OF assms, of f "nat n"] obtain rs
    where rs: "sols_at_int f p (nat n) = Inr rs" by blast
  from sols_at_int_refines [OF rs] hensel_lift_refines [OF rs]
  show "\<exists>rs. lift_loop f p [1..<nat n] (base_roots f p) = Inr (map of_int rs)
      \<and> hensel_lift f p n = Inr (map of_int rs)"
    by (auto simp: sols_at_def)
next
  fix rs assume rs: "hensel_lift g q m = Inr rs"
  note near = hensel_lift_near [OF rs]
  show "\<forall>r\<in>set rs. check_irrational (Finite r) float_1e_6 = Inr False"
    using near by (simp add: list_all_iff near_integer_not_irrational)
  show "any_irrational rs = Inr False" by (rule any_irrational_near [OF near])
  show "check_sols rs \<noteq> Inl (ValueError ''Non-integer solution detected'')"
    by (simp add: check_sols_def any_irrational_near [OF near])
next
  show "main = Inr ''3-adic verification passed''" by code_simp
qed

text \<open>
  The theorem at \<open>f(x) = x^2 - 1\<close>: the prime 5 with \<open>n = 4\<close>, and the list returned for
  \<open>p = 8\<close>, \<open>n = 2\<close>.
\<close>

theorem hensel_lift_filter_on_prime_witness:
  "is_prime 5
   \<and> lift_loop [- 1, 0, 1] 5 [1..<nat 4] (base_roots [- 1, 0, 1] 5) = Inr (map of_int [1, 624])
   \<and> hensel_lift [- 1, 0, 1] 5 4 = Inr (map of_int [1, 624])
   \<and> hensel_lift [- 1, 0, 1] 8 2 = Inr [1, 57, 63]
   \<and> check_irrational (Finite 57) float_1e_6 = Inr False
   \<and> any_irrational [1, 57, 63] = Inr False"
proof -
  have h: "is_prime 5" by code_simp
  have e1: "lift_loop [- 1, 0, 1] 5 [1..<nat 4] (base_roots [- 1, 0, 1] 5)
      = Inr (map of_int [1, 624])" by code_simp
  have e2: "hensel_lift [- 1, 0, 1] 5 4 = Inr (map of_int [1, 624])" by code_simp
  have e3: "hensel_lift [- 1, 0, 1] 8 2 = Inr [1, 57, 63]" by code_simp
  note t = hensel_lift_filter_on_prime [OF h, of "[- 1, 0, 1]" 4 "[- 1, 0, 1]" 8 2]
  from t [THEN conjunct2, THEN conjunct1, THEN spec, THEN mp, OF e3]
  have "check_irrational (Finite 57) float_1e_6 = Inr False"
    and "any_irrational [1, 57, 63] = Inr False"
    by simp_all
  with h e1 e2 e3 show ?thesis by blast
qed

end
